theory Spec2Isabelle
  imports Main "HOL-Library.Sublist"
begin

section \<open>Data model of \<open>main.py\<close>\<close>

text \<open>
  A transaction is the dictionary built in \<open>add_transaction\<close> and \<open>mine_block\<close>: it
  always has the four keys \<open>'sender'\<close>, \<open>'recipient'\<close>, \<open>'amount'\<close>, \<open>'id'\<close>, in this
  insertion order. Amounts are modelled as Python integers (the reward is the integer
  \<open>1\<close>); strings are sequences of code points below 256.
\<close>

record transaction =
  sender :: string
  recipient :: string
  amount :: int
  tx_id :: string

text \<open>A naive \<open>datetime.datetime\<close> value, as returned by \<open>datetime.datetime.now()\<close>.\<close>

record datetime =
  year :: nat
  month :: nat
  day :: nat
  hour :: nat
  minute :: nat
  second :: nat
  microsecond :: nat

text \<open>
  Python lists are mutable objects. A block does not hold the transactions themselves but
  a reference to a list object, and \<open>pending_transactions\<close> is such a reference too; the
  list objects live in a store. \<open>add_transaction\<close> appends in place, so whether a block and
  the pool share one list object matters.
\<close>

type_synonym ref = nat
type_synonym lists = "ref \<Rightarrow> transaction list"

record block =
  index :: nat
  timestamp :: datetime
  transactions :: ref
  previous_hash :: string
  nonce :: nat
  hash :: string

record blockchain =
  chain :: "block list"
  pending_transactions :: ref
  store :: lists
  next_ref :: ref

datatype py_error = IndexError

section \<open>Python's \<open>str\<close> and \<open>repr\<close>\<close>

definition digit_char :: "nat \<Rightarrow> char" where
  "digit_char d = char_of (48 + d)"

fun str_nat :: "nat \<Rightarrow> string" where
  "str_nat n = (if n < 10 then [digit_char n] else str_nat (n div 10) @ [digit_char (n mod 10)])"

declare str_nat.simps [simp del]

definition str_int :: "int \<Rightarrow> string" where
  "str_int i = (if i < 0 then CHR ''-'' # str_nat (nat (- i)) else str_nat (nat i))"

definition zfill :: "nat \<Rightarrow> string \<Rightarrow> string" where
  "zfill w s = replicate (w - length s) CHR ''0'' @ s"

text \<open>\<open>str(datetime)\<close> is \<open>isoformat(sep=' ')\<close>; the fraction is printed unless it is zero.\<close>

definition str_datetime :: "datetime \<Rightarrow> string" where
  "str_datetime t =
     zfill 4 (str_nat (year t)) @ ''-'' @ zfill 2 (str_nat (month t)) @ ''-'' @
     zfill 2 (str_nat (day t)) @ '' '' @ zfill 2 (str_nat (hour t)) @ '':'' @
     zfill 2 (str_nat (minute t)) @ '':'' @ zfill 2 (str_nat (second t)) @
     (if microsecond t = 0 then [] else ''.'' @ zfill 6 (str_nat (microsecond t)))"

definition hex_char :: "nat \<Rightarrow> char" where
  "hex_char d = (if d < 10 then char_of (48 + d) else char_of (87 + d))"

text \<open>
  \<open>repr\<close> of a string: double quotes when the string has a single quote and no double
  quote, single quotes otherwise; the quote and the backslash are escaped, tab, newline
  and carriage return have their letters, and the other non-printable code points
  (controls, delete, 0x80 to 0xa0, the soft hyphen) are written \<open>\xNN\<close>.
\<close>

definition repr_quote :: "string \<Rightarrow> char" where
  "repr_quote s = (if CHR 0x27 \<in> set s \<and> CHR 0x22 \<notin> set s then CHR 0x22 else CHR 0x27)"

definition repr_char :: "char \<Rightarrow> char \<Rightarrow> string" where
  "repr_char q c =
     (let n = (of_char c :: nat) in
      if c = q \<or> c = CHR 0x5C then [CHR 0x5C, c]
      else if c = CHR 0x09 then [CHR 0x5C, CHR ''t'']
      else if c = CHR 0x0A then [CHR 0x5C, CHR ''n'']
      else if c = CHR 0x0D then [CHR 0x5C, CHR ''r'']
      else if n < 32 \<or> n = 127 \<or> (128 \<le> n \<and> n \<le> 160) \<or> n = 173
        then [CHR 0x5C, CHR ''x'', hex_char (n div 16), hex_char (n mod 16)]
      else [c])"

definition repr_str :: "string \<Rightarrow> string" where
  "repr_str s = (let q = repr_quote s in [q] @ concat (map (repr_char q) s) @ [q])"

definition str_transaction :: "transaction \<Rightarrow> string" where
  "str_transaction t =
     ''{'' @ repr_str ''sender'' @ '': '' @ repr_str (sender t) @ '', '' @
     repr_str ''recipient'' @ '': '' @ repr_str (recipient t) @ '', '' @
     repr_str ''amount'' @ '': '' @ str_int (amount t) @ '', '' @
     repr_str ''id'' @ '': '' @ repr_str (tx_id t) @ ''}''"

fun join_comma :: "string list \<Rightarrow> string" where
  "join_comma [] = []"
| "join_comma [x] = x"
| "join_comma (x # y # ys) = x @ '', '' @ join_comma (y # ys)"

definition str_transactions :: "transaction list \<Rightarrow> string" where
  "str_transactions ts = ''['' @ join_comma (map str_transaction ts) @ '']''"

section \<open>Block\<close>

text \<open>
  The parameter \<open>H\<close> stands for the library call
  \<open>hashlib.sha256(data.encode('utf-8')).hexdigest()\<close>: every definition and theorem below
  holds for whatever function from strings to strings it is.
\<close>

definition block_data :: "lists \<Rightarrow> block \<Rightarrow> string" where
  "block_data \<sigma> b =
     str_nat (index b) @ str_datetime (timestamp b) @ str_transactions (\<sigma> (transactions b)) @
     previous_hash b @ str_nat (nonce b)"

definition calculate_hash :: "(string \<Rightarrow> string) \<Rightarrow> lists \<Rightarrow> block \<Rightarrow> string" where
  "calculate_hash H \<sigma> b = H (block_data \<sigma> b)"

text \<open>\<open>Block.__init__\<close>: the nonce is 0 and the hash is computed over that.\<close>

definition new_block ::
  "(string \<Rightarrow> string) \<Rightarrow> lists \<Rightarrow> nat \<Rightarrow> datetime \<Rightarrow> ref \<Rightarrow> string \<Rightarrow> block" where
  "new_block H \<sigma> i ts txs prev =
     (let self = \<lparr>index = i, timestamp = ts, transactions = txs, previous_hash = prev,
                  nonce = 0, hash = []\<rparr>
      in self\<lparr>hash := calculate_hash H \<sigma> self\<rparr>)"

section \<open>Blockchain\<close>

text \<open>
  The constructor takes the clock reading of \<open>create_genesis_block\<close>. The genesis block's
  \<open>[]\<close> and the pool's \<open>[]\<close> are two list objects, references 0 and 1.
\<close>

definition create_genesis_block :: "(string \<Rightarrow> string) \<Rightarrow> datetime \<Rightarrow> lists \<Rightarrow> ref \<Rightarrow> block" where
  "create_genesis_block H now \<sigma> r = new_block H \<sigma> 0 now r ''0''"

definition init :: "(string \<Rightarrow> string) \<Rightarrow> datetime \<Rightarrow> blockchain" where
  "init H now =
     (let \<sigma> = (\<lambda>_. []) in
      \<lparr>chain = [create_genesis_block H now \<sigma> 0], pending_transactions = 1,
       store = \<sigma>, next_ref = 2\<rparr>)"

definition add_block :: "block \<Rightarrow> blockchain \<Rightarrow> blockchain" where
  "add_block b s = s\<lparr>chain := chain s @ [b]\<rparr>"

definition valid_proof :: "(string \<Rightarrow> string) \<Rightarrow> string \<Rightarrow> nat \<Rightarrow> bool" where
  "valid_proof H block_hash n = (take 4 (H (block_hash @ str_nat n)) = ''0000'')"

text \<open>The \<open>while\<close> loop of \<open>proof_of_work\<close>, from the current nonce; \<open>None\<close> when it runs forever.\<close>

partial_function (option) pow_loop :: "(string \<Rightarrow> string) \<Rightarrow> string \<Rightarrow> nat \<Rightarrow> nat option" where
  "pow_loop H block_hash n =
     (if valid_proof H block_hash n then Some n else pow_loop H block_hash (n + 1))"

definition proof_of_work :: "(string \<Rightarrow> string) \<Rightarrow> string \<Rightarrow> nat option" where
  "proof_of_work H block_hash = pow_loop H block_hash 0"

definition reward_transaction :: "string \<Rightarrow> string \<Rightarrow> transaction" where
  "reward_transaction miner_address new_id =
     \<lparr>sender = ''Blockchain'', recipient = miner_address, amount = 1, tx_id = new_id\<rparr>"

text \<open>
  \<open>mine_block\<close> takes the clock reading and the identifier that
  \<open>generate_transaction_id\<close> draws. The result is \<open>None\<close> when the proof-of-work loop does
  not return, \<open>Some (Inl IndexError)\<close> when \<open>self.chain[-1]\<close> raises, and otherwise the
  returned boolean with the new state. The block is built on the pool's own list object
  (line 84); line 96 then binds the pool to a new list object.
\<close>

definition mine_block ::
  "(string \<Rightarrow> string) \<Rightarrow> datetime \<Rightarrow> string \<Rightarrow> string \<Rightarrow> blockchain \<Rightarrow>
   (py_error + bool \<times> blockchain) option" where
  "mine_block H now new_id miner_address s =
     (if length (store s (pending_transactions s)) = 0 then Some (Inr (False, s))
      else if chain s = [] then Some (Inl IndexError)
      else
        let block = new_block H (store s) (length (chain s)) now (pending_transactions s)
                      (hash (last (chain s)))
        in case proof_of_work H (hash block) of
             None \<Rightarrow> None
           | Some n \<Rightarrow>
               let s1 = add_block (block\<lparr>nonce := n\<rparr>) s;
                   r = next_ref s1
               in Some (Inr (True,
                    s1\<lparr>pending_transactions := r,
                       store := (store s1)(r := [reward_transaction miner_address new_id]),
                       next_ref := r + 1\<rparr>)))"

text \<open>\<open>add_transaction\<close> appends to the pool's list object in place.\<close>

definition add_transaction ::
  "string \<Rightarrow> string \<Rightarrow> string \<Rightarrow> int \<Rightarrow> blockchain \<Rightarrow> blockchain" where
  "add_transaction new_id sndr rcpt amt s =
     (let t = \<lparr>sender = sndr, recipient = rcpt, amount = amt, tx_id = new_id\<rparr>;
          p = pending_transactions s
      in s\<lparr>store := (store s)(p := store s p @ [t])\<rparr>)"

text \<open>The two nested loops of \<open>get_balance\<close>, with the running balance.\<close>

fun balance_txs :: "string \<Rightarrow> transaction list \<Rightarrow> int \<Rightarrow> int" where
  "balance_txs a [] bal = bal"
| "balance_txs a (t # ts) bal =
     balance_txs a ts
       (if sender t = a then bal - amount t
        else if recipient t = a then bal + amount t
        else bal)"

fun balance_blocks :: "string \<Rightarrow> lists \<Rightarrow> block list \<Rightarrow> int \<Rightarrow> int" where
  "balance_blocks a \<sigma> [] bal = bal"
| "balance_blocks a \<sigma> (b # bs) bal = balance_blocks a \<sigma> bs (balance_txs a (\<sigma> (transactions b)) bal)"

definition get_balance :: "blockchain \<Rightarrow> string \<Rightarrow> int" where
  "get_balance s address = balance_blocks address (store s) (chain s) 0"

text \<open>The two nested loops of \<open>get_transaction_by_id\<close>; \<open>None\<close> is Python's \<open>None\<close>.\<close>

fun find_txs :: "string \<Rightarrow> transaction list \<Rightarrow> transaction option" where
  "find_txs i [] = None"
| "find_txs i (t # ts) = (if tx_id t = i then Some t else find_txs i ts)"

fun find_blocks :: "string \<Rightarrow> lists \<Rightarrow> block list \<Rightarrow> transaction option" where
  "find_blocks i \<sigma> [] = None"
| "find_blocks i \<sigma> (b # bs) =
     (case find_txs i (\<sigma> (transactions b)) of
        Some t \<Rightarrow> Some t
      | None \<Rightarrow> find_blocks i \<sigma> bs)"

definition get_transaction_by_id :: "blockchain \<Rightarrow> string \<Rightarrow> transaction option" where
  "get_transaction_by_id s transaction_id = find_blocks transaction_id (store s) (chain s)"

text \<open>The loop of \<open>is_chain_valid\<close> over \<open>range(1, len(self.chain))\<close>.\<close>

fun valid_range :: "(string \<Rightarrow> string) \<Rightarrow> lists \<Rightarrow> block list \<Rightarrow> nat list \<Rightarrow> bool" where
  "valid_range H \<sigma> c [] = True"
| "valid_range H \<sigma> c (i # is) =
     (let current_block = c ! i; previous_block = c ! (i - 1) in
      if hash current_block \<noteq> calculate_hash H \<sigma> current_block then False
      else if previous_hash current_block \<noteq> hash previous_block then False
      else valid_range H \<sigma> c is)"

definition is_chain_valid :: "(string \<Rightarrow> string) \<Rightarrow> blockchain \<Rightarrow> bool" where
  "is_chain_valid H s = valid_range H (store s) (chain s) [1..<length (chain s)]"


section \<open>States reached through the public operations\<close>

inductive reachable :: "(string \<Rightarrow> string) \<Rightarrow> blockchain \<Rightarrow> bool" for H :: "string \<Rightarrow> string" where
  reach_init: "reachable H (init H now)"
| reach_add: "reachable H s \<Longrightarrow> reachable H (add_transaction new_id sndr rcpt amt s)"
| reach_mine: "reachable H s \<Longrightarrow> mine_block H now new_id miner_address s = Some (Inr (ok, s')) \<Longrightarrow>
     reachable H s'"

text \<open>The contents of the pool, and the committed transactions in chain-then-block order.\<close>

definition pool :: "blockchain \<Rightarrow> transaction list" where
  "pool s = store s (pending_transactions s)"

definition block_transactions :: "blockchain \<Rightarrow> block \<Rightarrow> transaction list" where
  "block_transactions s b = store s (transactions b)"

definition committed_transactions :: "blockchain \<Rightarrow> transaction list" where
  "committed_transactions s = concat (map (block_transactions s) (chain s))"

text \<open>
  No block shares its list object with the pool, and every list object in use was
  allocated.
\<close>

definition heap_ok :: "blockchain \<Rightarrow> bool" where
  "heap_ok s \<longleftrightarrow>
     chain s \<noteq> [] \<and> pending_transactions s < next_ref s \<and>
     (\<forall>b \<in> set (chain s). transactions b < next_ref s \<and> transactions b \<noteq> pending_transactions s)"

text \<open>The balance as the specification words it: one fold over the committed transactions.\<close>

definition spec_step :: "string \<Rightarrow> int \<Rightarrow> transaction \<Rightarrow> int" where
  "spec_step a bal t =
     (if sender t = a then bal - amount t
      else if recipient t = a then bal + amount t
      else bal)"

definition spec_balance :: "blockchain \<Rightarrow> string \<Rightarrow> int" where
  "spec_balance s a = foldl (spec_step a) 0 (committed_transactions s)"

text \<open>The candidate block that \<open>mine_block\<close> builds on lines 83 and 84, nonce 0.\<close>

definition candidate :: "(string \<Rightarrow> string) \<Rightarrow> datetime \<Rightarrow> blockchain \<Rightarrow> block" where
  "candidate H now s =
     new_block H (store s) (length (chain s)) now (pending_transactions s) (hash (last (chain s)))"

text \<open>What a reader of the chain sees: every block with the contents of its list object.\<close>

definition chain_view :: "blockchain \<Rightarrow> (block \<times> transaction list) list" where
  "chain_view s = map (\<lambda>b. (b, block_transactions s b)) (chain s)"

text \<open>
  Tampering from outside the public operations: assigning to a committed block's
  \<open>previous_hash\<close>, and changing the contents of a committed block's transaction list.
\<close>

definition tamper_previous_hash :: "nat \<Rightarrow> string \<Rightarrow> blockchain \<Rightarrow> blockchain" where
  "tamper_previous_hash i p s = s\<lparr>chain := (chain s)[i := (chain s ! i)\<lparr>previous_hash := p\<rparr>]\<rparr>"

definition tamper_transactions :: "nat \<Rightarrow> transaction list \<Rightarrow> blockchain \<Rightarrow> blockchain" where
  "tamper_transactions i xs s = s\<lparr>store := (store s)(transactions (chain s ! i) := xs)\<rparr>"

text \<open>Every block after the first names the stored hash of the block before it.\<close>

definition linked :: "block list \<Rightarrow> bool" where
  "linked c \<longleftrightarrow> (\<forall>i. 0 < i \<and> i < length c \<longrightarrow> previous_hash (c ! i) = hash (c ! (i - 1)))"

section \<open>A concrete run\<close>

text \<open>
  Concrete runs need a concrete digest function. \<open>toy_digest\<close> is a stand-in with a short
  proof-of-work search (the first accepted nonce is 3); it is used only to exhibit runs,
  and no general theorem below depends on it.
\<close>

definition toy_digest :: "string \<Rightarrow> string" where
  "toy_digest x = (if x \<noteq> [] \<and> last x = CHR ''3'' then ''0000'' else ''ffff'') @ x"

definition t0 :: datetime where
  "t0 = \<lparr>year = 2024, month = 1, day = 2, hour = 3, minute = 4, second = 5, microsecond = 678\<rparr>"

definition t1 :: datetime where
  "t1 = \<lparr>year = 2024, month = 1, day = 2, hour = 3, minute = 5, second = 0, microsecond = 0\<rparr>"

definition tx_AB :: transaction where
  "tx_AB = \<lparr>sender = ''A'', recipient = ''B'', amount = 10, tx_id = ''aaaaaaaaaa''\<rparr>"

text \<open>\<open>Blockchain()\<close>, then \<open>add_transaction('A', 'B', 10)\<close>, then \<open>mine_block('M')\<close>.\<close>

definition demo0 :: blockchain where
  "demo0 = init toy_digest t0"

definition demo1 :: blockchain where
  "demo1 = add_transaction ''aaaaaaaaaa'' ''A'' ''B'' 10 demo0"

definition demo_block :: block where
  "demo_block = (new_block toy_digest (store demo1) 1 t1 1 (hash (last (chain demo1))))\<lparr>nonce := 3\<rparr>"

definition demo2 :: blockchain where
  "demo2 = \<lparr>chain = chain demo1 @ [demo_block], pending_transactions = 2,
             store = (store demo1)(2 := [reward_transaction ''M'' ''bbbbbbbbbb'']),
             next_ref = 3\<rparr>"

definition tx_ZZ :: transaction where
  "tx_ZZ = \<lparr>sender = ''Z'', recipient = ''Z'', amount = 5, tx_id = ''cccccccccc''\<rparr>"

text \<open>After the run, \<open>add_transaction('Z', 'Z', 5)\<close>: a pending transaction.\<close>

definition demo3 :: blockchain where
  "demo3 = add_transaction ''cccccccccc'' ''Z'' ''Z'' 5 demo2"

section \<open>The store discipline\<close>

lemma new_block_fields [simp]:
  "index (new_block H \<sigma> i ts r p) = i"
  "timestamp (new_block H \<sigma> i ts r p) = ts"
  "transactions (new_block H \<sigma> i ts r p) = r"
  "previous_hash (new_block H \<sigma> i ts r p) = p"
  "nonce (new_block H \<sigma> i ts r p) = 0"
  by (simp_all add: new_block_def Let_def)

lemma new_block_hash:
  "hash (new_block H \<sigma> i ts r p) = calculate_hash H \<sigma> (new_block H \<sigma> i ts r p)"
  by (simp add: new_block_def Let_def calculate_hash_def block_data_def)

lemma mine_block_empty:
  "pool s = [] \<Longrightarrow> mine_block H now new_id m s = Some (Inr (False, s))"
  by (simp add: mine_block_def pool_def)

lemma mine_block_False:
  "mine_block H now new_id m s = Some (Inr (False, s')) \<Longrightarrow> pool s = [] \<and> s' = s"
  by (auto simp: mine_block_def pool_def Let_def split: if_splits option.splits)

text \<open>What a successful call did, field by field.\<close>

lemma mine_block_True:
  assumes "mine_block H now new_id m s = Some (Inr (True, s'))"
  shows "\<exists>n. proof_of_work H (hash (new_block H (store s) (length (chain s)) now
                 (pending_transactions s) (hash (last (chain s))))) = Some n \<and>
             chain s' = chain s @ [(new_block H (store s) (length (chain s)) now
                 (pending_transactions s) (hash (last (chain s))))\<lparr>nonce := n\<rparr>] \<and>
             pending_transactions s' = next_ref s \<and>
             store s' = (store s)(next_ref s := [reward_transaction m new_id]) \<and>
             next_ref s' = next_ref s + 1 \<and> pool s \<noteq> [] \<and> chain s \<noteq> []"
  using assms
  by (auto simp: mine_block_def pool_def Let_def add_block_def split: if_splits option.splits)

lemma heap_ok_init: "heap_ok (init H now)"
  by (simp add: heap_ok_def init_def create_genesis_block_def Let_def)

lemma heap_ok_add: "heap_ok s \<Longrightarrow> heap_ok (add_transaction i x y a s)"
  by (simp add: heap_ok_def add_transaction_def Let_def)

lemma heap_ok_mine:
  assumes "heap_ok s" and "mine_block H now new_id m s = Some (Inr (ok, s'))"
  shows "heap_ok s'"
proof (cases ok)
  case False
  with assms(2) have "mine_block H now new_id m s = Some (Inr (False, s'))" by simp
  then have "s' = s" by (rule mine_block_False [THEN conjunct2])
  with assms(1) show ?thesis by simp
next
  case True
  with assms(2) have "mine_block H now new_id m s = Some (Inr (True, s'))" by simp
  then obtain n where
    c: "chain s' = chain s @ [(new_block H (store s) (length (chain s)) now
          (pending_transactions s) (hash (last (chain s))))\<lparr>nonce := n\<rparr>]"
    and p: "pending_transactions s' = next_ref s" and nx: "next_ref s' = next_ref s + 1"
    using mine_block_True by blast
  from assms(1) show ?thesis
    unfolding heap_ok_def c p nx by auto
qed

lemma reachable_heap_ok: "reachable H s \<Longrightarrow> heap_ok s"
  by (induction rule: reachable.induct) (auto intro: heap_ok_init heap_ok_add heap_ok_mine)

text \<open>Writing to a list object that no block of \<open>bs\<close> holds changes nothing they read.\<close>

lemma balance_blocks_upd:
  "\<forall>b \<in> set bs. transactions b \<noteq> r \<Longrightarrow>
   balance_blocks a (\<sigma>(r := xs)) bs bal = balance_blocks a \<sigma> bs bal"
  by (induction bs arbitrary: bal) auto

lemma find_blocks_upd:
  "\<forall>b \<in> set bs. transactions b \<noteq> r \<Longrightarrow> find_blocks i (\<sigma>(r := xs)) bs = find_blocks i \<sigma> bs"
  by (induction bs) (auto split: option.splits)

section \<open>Balances\<close>

lemma balance_txs_foldl: "balance_txs a ts bal = foldl (spec_step a) bal ts"
  by (induction ts arbitrary: bal) (auto simp: spec_step_def)

lemma balance_blocks_foldl:
  "balance_blocks a \<sigma> bs bal = foldl (spec_step a) bal (concat (map (\<lambda>b. \<sigma> (transactions b)) bs))"
  by (induction bs arbitrary: bal) (auto simp: balance_txs_foldl)

lemma foldl_spec_step_absent:
  "\<forall>t \<in> set ts. sender t \<noteq> a \<and> recipient t \<noteq> a \<Longrightarrow> foldl (spec_step a) bal ts = bal"
  by (induction ts arbitrary: bal) (auto simp: spec_step_def)

lemma get_balance_spec: "get_balance s a = spec_balance s a"
  unfolding get_balance_def spec_balance_def committed_transactions_def block_transactions_def
  by (simp add: balance_blocks_foldl cong: map_cong)


section \<open>The concrete run, evaluated\<close>

lemma str_nat_digit: "n < 10 \<Longrightarrow> str_nat n = [digit_char n]"
  by (simp add: str_nat.simps)

lemma digit_char_3: "d < 10 \<Longrightarrow> digit_char d = CHR ''3'' \<longleftrightarrow> d = 3"
proof
  assume d: "d < 10" and "digit_char d = CHR ''3''"
  then have "(of_char (digit_char d) :: nat) = of_char CHR ''3''" by simp
  with d show "d = 3" by (simp add: digit_char_def)
next
  assume "d = 3"
  then show "digit_char d = CHR ''3''" by (simp add: digit_char_def char_of_def bit_iff_odd)
qed

lemma toy_valid_proof: "valid_proof toy_digest h n \<longleftrightarrow> n mod 10 = 3"
proof -
  have l: "last (h @ str_nat n) = digit_char (n mod 10)"
    by (subst str_nat.simps) simp
  have ne: "h @ str_nat n \<noteq> []"
    by (subst str_nat.simps) simp
  show ?thesis
    unfolding valid_proof_def toy_digest_def using l ne by (simp add: digit_char_3)
qed

text \<open>The loop returns the first accepted nonce at or after its start.\<close>

lemma pow_loop_first:
  "valid_proof H h (n + k) \<Longrightarrow> \<forall>j < k. \<not> valid_proof H h (n + j) \<Longrightarrow>
   pow_loop H h n = Some (n + k)"
proof (induction k arbitrary: n)
  case 0
  then show ?case by (subst pow_loop.simps) simp
next
  case (Suc k)
  have "\<not> valid_proof H h n" using Suc.prems(2) [rule_format, of 0] by simp
  moreover have "pow_loop H h (n + 1) = Some (n + 1 + k)"
  proof (rule Suc.IH)
    show "valid_proof H h (n + 1 + k)" using Suc.prems(1) by simp
    show "\<forall>j<k. \<not> valid_proof H h (n + 1 + j)"
    proof (intro allI impI)
      fix j assume "j < k"
      then have "Suc j < Suc k" by simp
      then have "\<not> valid_proof H h (n + Suc j)" using Suc.prems(2) by blast
      then show "\<not> valid_proof H h (n + 1 + j)" by simp
    qed
  qed
  ultimately show ?case by (subst pow_loop.simps) simp
qed

lemma toy_proof_of_work: "proof_of_work toy_digest h = Some 3"
  unfolding proof_of_work_def
  using pow_loop_first [of toy_digest h 0 3] by (simp add: toy_valid_proof)

lemma demo1_fields:
  "chain demo1 = [create_genesis_block toy_digest t0 (\<lambda>_. []) 0]"
  "pending_transactions demo1 = 1"
  "store demo1 = (\<lambda>_. [])(1 := [tx_AB])"
  "next_ref demo1 = 2"
  by (simp_all add: demo1_def demo0_def init_def add_transaction_def Let_def tx_AB_def)

lemma demo_mine: "mine_block toy_digest t1 ''bbbbbbbbbb'' ''M'' demo1 = Some (Inr (True, demo2))"
  by (simp add: mine_block_def demo1_fields toy_proof_of_work Let_def add_block_def demo2_def
      demo_block_def)

lemma reachable_demo1: "reachable toy_digest demo1"
  unfolding demo1_def demo0_def by (intro reach_add reach_init)

lemma reachable_demo2: "reachable toy_digest demo2"
  using reachable_demo1 demo_mine by (rule reach_mine)

lemma demo2_committed: "committed_transactions demo2 = [tx_AB]"
  by (simp add: committed_transactions_def block_transactions_def demo2_def demo1_fields
      demo_block_def create_genesis_block_def)

section \<open>Proof of work\<close>

lemma pow_loop_sound:
  assumes "pow_loop H h n = Some r"
  shows "valid_proof H h r \<and> n \<le> r \<and> (\<forall>k. n \<le> k \<and> k < r \<longrightarrow> \<not> valid_proof H h k)"
proof (rule pow_loop.raw_induct
    [where P = "\<lambda>H h n r. valid_proof H h r \<and> n \<le> r \<and>
                  (\<forall>k. n \<le> k \<and> k < r \<longrightarrow> \<not> valid_proof H h k)",
     OF _ assms])
  fix pow :: "(string \<Rightarrow> string) \<Rightarrow> string \<Rightarrow> nat \<Rightarrow> nat option" and H h n r
  assume IH: "\<And>H h n r. pow H h n = Some r \<Longrightarrow>
      valid_proof H h r \<and> n \<le> r \<and> (\<forall>k. n \<le> k \<and> k < r \<longrightarrow> \<not> valid_proof H h k)"
    and step: "(if valid_proof H h n then Some n else pow H h (n + 1)) = Some r"
  show "valid_proof H h r \<and> n \<le> r \<and> (\<forall>k. n \<le> k \<and> k < r \<longrightarrow> \<not> valid_proof H h k)"
  proof (cases "valid_proof H h n")
    case True
    with step show ?thesis by auto
  next
    case False
    with step have "pow H h (n + 1) = Some r" by simp
    from IH [OF this] have a: "valid_proof H h r" and b: "n + 1 \<le> r"
      and c: "\<forall>k. n + 1 \<le> k \<and> k < r \<longrightarrow> \<not> valid_proof H h k" by auto
    have "\<not> valid_proof H h k" if "n \<le> k" "k < r" for k
    proof (cases "k = n")
      case True
      with False show ?thesis by simp
    next
      case neq: False
      with that have "n + 1 \<le> k" by simp
      with c that show ?thesis by blast
    qed
    with a b show ?thesis by auto
  qed
qed

text \<open>When some nonce is accepted the search returns, with the least one.\<close>

lemma proof_of_work_first:
  assumes "valid_proof H h l" and "\<And>j. j < l \<Longrightarrow> \<not> valid_proof H h j"
  shows "proof_of_work H h = Some l"
  using pow_loop_first [of H h 0 l] assms by (simp add: proof_of_work_def)

lemma proof_of_work_least:
  assumes "valid_proof H h n0"
  shows "proof_of_work H h = Some (LEAST n. valid_proof H h n)"
proof (rule proof_of_work_first)
  show "valid_proof H h (LEAST n. valid_proof H h n)" using assms by (rule LeastI)
next
  fix j assume "j < (LEAST n. valid_proof H h n)"
  then show "\<not> valid_proof H h j" by (rule not_less_Least)
qed

lemma candidate_fields [simp]:
  "index (candidate H now s) = length (chain s)"
  "timestamp (candidate H now s) = now"
  "transactions (candidate H now s) = pending_transactions s"
  "previous_hash (candidate H now s) = hash (last (chain s))"
  "nonce (candidate H now s) = 0"
  by (simp_all add: candidate_def)

lemma mine_block_candidate:
  assumes "mine_block H now new_id m s = Some (Inr (True, s'))"
  shows "\<exists>n. proof_of_work H (hash (candidate H now s)) = Some n \<and>
             chain s' = chain s @ [(candidate H now s)\<lparr>nonce := n\<rparr>] \<and>
             pending_transactions s' = next_ref s \<and>
             store s' = (store s)(next_ref s := [reward_transaction m new_id]) \<and>
             next_ref s' = next_ref s + 1 \<and> pool s \<noteq> [] \<and> chain s \<noteq> []"
  unfolding candidate_def using assms by (rule mine_block_True)

lemma mine_block_returns:
  assumes "pool s \<noteq> []" and "chain s \<noteq> []"
    and "proof_of_work H (hash (candidate H now s)) = Some n"
  shows "mine_block H now new_id m s =
     Some (Inr (True, \<lparr>chain = chain s @ [(candidate H now s)\<lparr>nonce := n\<rparr>],
                       pending_transactions = next_ref s,
                       store = (store s)(next_ref s := [reward_transaction m new_id]),
                       next_ref = next_ref s + 1\<rparr>))"
  using assms
  by (simp add: mine_block_def pool_def candidate_def Let_def add_block_def)

lemma reachable_empty_pool:
  "reachable H s \<Longrightarrow> pool s = [] \<Longrightarrow> length (chain s) = 1"
proof (induction rule: reachable.induct)
  case (reach_init now)
  then show ?case by (simp add: init_def Let_def)
next
  case (reach_add s new_id sndr rcpt amt)
  then show ?case by (simp add: pool_def add_transaction_def Let_def)
next
  case (reach_mine s now new_id miner_address ok s')
  show ?case
  proof (cases ok)
    case True
    with reach_mine.hyps(2) have "mine_block H now new_id miner_address s = Some (Inr (True, s'))"
      by simp
    from mine_block_True [OF this] have "pool s' \<noteq> []" by (auto simp: pool_def)
    with reach_mine.prems show ?thesis by simp
  next
    case False
    with reach_mine.hyps(2) have "mine_block H now new_id miner_address s = Some (Inr (False, s'))"
      by simp
    then have "s' = s" by (rule mine_block_False [THEN conjunct2])
    with reach_mine show ?thesis by simp
  qed
qed

lemma demo_pools: "pool demo0 = []" "pool demo1 = [tx_AB]"
  by (simp_all add: pool_def demo0_def init_def Let_def demo1_fields)

section \<open>Lookup and the committed blocks\<close>

lemma find_txs_find: "find_txs i ts = List.find (\<lambda>t. tx_id t = i) ts"
  by (induction ts) auto

lemma find_append:
  "List.find P (xs @ ys) = (case List.find P xs of Some x \<Rightarrow> Some x | None \<Rightarrow> List.find P ys)"
  by (induction xs) auto

lemma find_blocks_find:
  "find_blocks i \<sigma> bs = List.find (\<lambda>t. tx_id t = i) (concat (map (\<lambda>b. \<sigma> (transactions b)) bs))"
  by (induction bs) (auto simp: find_txs_find find_append split: option.splits)

lemma get_transaction_by_id_find:
  "get_transaction_by_id s i = List.find (\<lambda>t. tx_id t = i) (committed_transactions s)"
  unfolding get_transaction_by_id_def committed_transactions_def block_transactions_def
  by (simp add: find_blocks_find cong: map_cong)

lemma reachable_disjoint:
  "reachable H s \<Longrightarrow> \<forall>b \<in> set (chain s). transactions b \<noteq> pending_transactions s"
  using reachable_heap_ok heap_ok_def by blast

text \<open>Neither operation writes to a list object that a committed block holds.\<close>

lemma chain_view_add:
  assumes "heap_ok s"
  shows "chain_view (add_transaction i x y a s) = chain_view s"
  using assms
  by (auto simp: chain_view_def block_transactions_def add_transaction_def Let_def heap_ok_def)

lemma chain_view_mine:
  assumes "heap_ok s" and "mine_block H now new_id m s = Some (Inr (True, s'))"
  shows "chain_view s' = chain_view s @ [(last (chain s'), pool s)]"
proof -
  from mine_block_candidate [OF assms(2)] obtain n where
    c: "chain s' = chain s @ [(candidate H now s)\<lparr>nonce := n\<rparr>]"
    and st: "store s' = (store s)(next_ref s := [reward_transaction m new_id])"
    by blast
  have old: "\<forall>b \<in> set (chain s). transactions b \<noteq> next_ref s"
    using assms(1) by (auto simp: heap_ok_def)
  have p: "pending_transactions s \<noteq> next_ref s"
    using assms(1) by (auto simp: heap_ok_def)
  show ?thesis
    using old p by (simp add: chain_view_def block_transactions_def c st pool_def)
qed

lemma chain_view_prefix:
  assumes "heap_ok s" and "mine_block H now new_id m s = Some (Inr (ok, s'))"
  shows "prefix (chain_view s) (chain_view s')"
proof (cases ok)
  case True
  with assms(2) have "mine_block H now new_id m s = Some (Inr (True, s'))" by simp
  from chain_view_mine [OF assms(1) this] show ?thesis by simp
next
  case False
  with assms(2) have "mine_block H now new_id m s = Some (Inr (False, s'))" by simp
  then have "s' = s" by (rule mine_block_False [THEN conjunct2])
  then show ?thesis by simp
qed

lemma chain_view_init:
  "chain_view (init H now) = [(create_genesis_block H now (\<lambda>_. []) 0, [])]"
  by (simp add: chain_view_def init_def Let_def block_transactions_def)

lemma reachable_genesis:
  "reachable H s \<Longrightarrow> \<exists>now0 rest. chain_view s = (create_genesis_block H now0 (\<lambda>_. []) 0, []) # rest"
proof (induction rule: reachable.induct)
  case (reach_init now)
  show ?case unfolding chain_view_init by blast
next
  case (reach_add s new_id sndr rcpt amt)
  then show ?case by (simp add: chain_view_add reachable_heap_ok)
next
  case (reach_mine s now new_id miner_address ok s')
  from chain_view_prefix [OF reachable_heap_ok [OF reach_mine.hyps(1)] reach_mine.hyps(2)]
  obtain zs where "chain_view s' = chain_view s @ zs" by (auto simp: prefix_def)
  with reach_mine.IH show ?case by auto
qed

lemma demo3_pool: "pool demo3 = [reward_transaction ''M'' ''bbbbbbbbbb'', tx_ZZ]"
  by (simp add: demo3_def pool_def add_transaction_def Let_def demo2_def tx_ZZ_def)

lemma reachable_demo3: "reachable toy_digest demo3"
  unfolding demo3_def using reachable_demo2 by (rule reach_add)

lemma demo3_committed: "committed_transactions demo3 = [tx_AB]"
proof -
  have "chain_view demo3 = chain_view demo2"
    unfolding demo3_def using reachable_heap_ok [OF reachable_demo2] by (rule chain_view_add)
  then have "map snd (chain_view demo3) = map snd (chain_view demo2)" by simp
  then have "committed_transactions demo3 = committed_transactions demo2"
    by (simp add: committed_transactions_def chain_view_def comp_def)
  then show ?thesis by (simp add: demo2_committed)
qed

section \<open>Validity of the chain\<close>

lemma valid_range_iff:
  "valid_range H \<sigma> c is \<longleftrightarrow>
     (\<forall>i \<in> set is. hash (c ! i) = calculate_hash H \<sigma> (c ! i) \<and>
                    previous_hash (c ! i) = hash (c ! (i - 1)))"
  by (induction "is") (auto simp: Let_def)

lemma is_chain_valid_iff:
  "is_chain_valid H s \<longleftrightarrow>
     (\<forall>i. 0 < i \<and> i < length (chain s) \<longrightarrow>
        hash (chain s ! i) = calculate_hash H (store s) (chain s ! i) \<and>
        previous_hash (chain s ! i) = hash (chain s ! (i - 1)))"
  by (auto simp: is_chain_valid_def valid_range_iff)

lemma linked_snoc:
  assumes "linked c" and "c \<noteq> []" and "previous_hash b = hash (last c)"
  shows "linked (c @ [b])"
  unfolding linked_def
proof (intro allI impI)
  fix i assume i: "0 < i \<and> i < length (c @ [b])"
  show "previous_hash ((c @ [b]) ! i) = hash ((c @ [b]) ! (i - 1))"
  proof (cases "i < length c")
    case True
    with i have "i - 1 < length c" by simp
    with True have "(c @ [b]) ! i = c ! i" "(c @ [b]) ! (i - 1) = c ! (i - 1)"
      by (simp_all add: nth_append)
    with i True assms(1) show ?thesis by (simp add: linked_def)
  next
    case False
    with i have e: "i = length c" by simp
    with assms(2) have "length c - 1 < length c" by simp
    then have "(c @ [b]) ! (length c - 1) = c ! (length c - 1)" by (simp add: nth_append)
    with e assms(2,3) show ?thesis by (simp add: last_conv_nth)
  qed
qed

lemma reachable_linked: "reachable H s \<Longrightarrow> linked (chain s)"
proof (induction rule: reachable.induct)
  case (reach_init now)
  show ?case by (simp add: linked_def init_def Let_def)
next
  case (reach_add s new_id sndr rcpt amt)
  then show ?case by (simp add: add_transaction_def Let_def)
next
  case (reach_mine s now new_id miner_address ok s')
  show ?case
  proof (cases ok)
    case True
    with reach_mine.hyps(2) have "mine_block H now new_id miner_address s = Some (Inr (True, s'))"
      by simp
    from mine_block_candidate [OF this] obtain n where
      c: "chain s' = chain s @ [(candidate H now s)\<lparr>nonce := n\<rparr>]" and ne: "chain s \<noteq> []"
      by blast
    show ?thesis unfolding c
      by (rule linked_snoc [OF reach_mine.IH ne]) simp
  next
    case False
    with reach_mine.hyps(2) have "mine_block H now new_id miner_address s = Some (Inr (False, s'))"
      by simp
    then have "s' = s" by (rule mine_block_False [THEN conjunct2])
    with reach_mine.IH show ?thesis by simp
  qed
qed

lemma candidate_hash:
  "hash (candidate H now s) = H (block_data (\<lambda>_. pool s) (candidate H now s))"
  by (simp add: candidate_def new_block_def Let_def calculate_hash_def block_data_def pool_def)

lemma mined_block_view:
  assumes "reachable H s" and "mine_block H now new_id m s = Some (Inr (True, s'))"
  shows "\<exists>n. last (chain s') = (candidate H now s)\<lparr>nonce := n\<rparr> \<and>
             proof_of_work H (hash (candidate H now s)) = Some n \<and>
             block_transactions s' (last (chain s')) = pool s"
proof -
  from mine_block_candidate [OF assms(2)] obtain n where
    c: "chain s' = chain s @ [(candidate H now s)\<lparr>nonce := n\<rparr>]"
    and pw: "proof_of_work H (hash (candidate H now s)) = Some n"
    by blast
  from chain_view_mine [OF reachable_heap_ok [OF assms(1)] assms(2)]
  have "last (chain_view s') = (last (chain s'), pool s)" by simp
  moreover have "last (chain_view s') = (last (chain s'), block_transactions s' (last (chain s')))"
    using c by (simp add: chain_view_def)
  ultimately have "block_transactions s' (last (chain s')) = pool s" by simp
  with c pw show ?thesis by simp
qed


lemma block_data_contents:
  "\<sigma> (transactions b) = txs \<Longrightarrow> block_data \<sigma> b = block_data (\<lambda>_. txs) b"
  by (simp add: block_data_def)

lemma toy_calculate_hash:
  "calculate_hash toy_digest \<sigma> b =
     (if nonce b mod 10 = 3 then ''0000'' else ''ffff'') @ block_data \<sigma> b"
proof -
  obtain pre where d: "block_data \<sigma> b = pre @ str_nat (nonce b)"
    by (simp add: block_data_def)
  have l: "last (pre @ str_nat (nonce b)) = digit_char (nonce b mod 10)"
    by (subst str_nat.simps) simp
  have ne: "pre @ str_nat (nonce b) \<noteq> []"
    by (subst str_nat.simps) simp
  show ?thesis
    unfolding calculate_hash_def toy_digest_def d using l ne by (simp add: digit_char_3)
qed

lemma demo_block_hash: "hash demo_block \<noteq> calculate_hash toy_digest (store demo2) demo_block"
proof -
  have "hash demo_block =
      calculate_hash toy_digest (store demo1) (new_block toy_digest (store demo1) 1 t1 1 (hash (last (chain demo1))))"
    unfolding demo_block_def using new_block_hash by simp
  then have "take 4 (hash demo_block) = ''ffff''"
    by (simp add: toy_calculate_hash)
  moreover have "take 4 (calculate_hash toy_digest (store demo2) demo_block) = ''0000''"
    by (simp add: toy_calculate_hash demo_block_def)
  ultimately show ?thesis by auto
qed

section \<open>Tampering\<close>

lemma tamper_previous_hash_fields [simp]:
  "store (tamper_previous_hash i p s) = store s"
  "length (chain (tamper_previous_hash i p s)) = length (chain s)"
  by (simp_all add: tamper_previous_hash_def)

lemma tamper_previous_hash_nth:
  "k < length (chain s) \<Longrightarrow>
   chain (tamper_previous_hash i p s) ! k =
     (if k = i then (chain s ! k)\<lparr>previous_hash := p\<rparr> else chain s ! k)"
  by (simp add: tamper_previous_hash_def)

lemma tamper_previous_hash_detected:
  assumes "reachable H s" and "0 < i" and "i < length (chain s)"
    and "p \<noteq> previous_hash (chain s ! i)"
  shows "\<not> is_chain_valid H (tamper_previous_hash i p s)"
proof
  assume v: "is_chain_valid H (tamper_previous_hash i p s)"
  let ?c = "chain (tamper_previous_hash i p s)"
  from v assms(2,3) have "previous_hash (?c ! i) = hash (?c ! (i - 1))"
    unfolding is_chain_valid_iff by simp
  moreover have "?c ! i = (chain s ! i)\<lparr>previous_hash := p\<rparr>"
    using assms(3) by (simp add: tamper_previous_hash_nth)
  moreover have "?c ! (i - 1) = chain s ! (i - 1)"
    using assms(2,3) by (simp add: tamper_previous_hash_nth)
  ultimately have "p = hash (chain s ! (i - 1))" by simp
  moreover have "previous_hash (chain s ! i) = hash (chain s ! (i - 1))"
    using reachable_linked [OF assms(1)] assms(2,3) by (simp add: linked_def)
  ultimately show False using assms(4) by simp
qed

lemma tamper_transactions_detected:
  assumes "0 < i" and "i < length (chain s)"
    and "calculate_hash H (store (tamper_transactions i xs s)) (chain s ! i) \<noteq> hash (chain s ! i)"
  shows "\<not> is_chain_valid H (tamper_transactions i xs s)"
proof
  assume v: "is_chain_valid H (tamper_transactions i xs s)"
  have c: "chain (tamper_transactions i xs s) = chain s" by (simp add: tamper_transactions_def)
  from v assms(1,2) have "hash (chain s ! i) =
      calculate_hash H (store (tamper_transactions i xs s)) (chain s ! i)"
    unfolding is_chain_valid_iff c by simp
  with assms(3) show False by simp
qed

lemma genesis_previous_hash_unread:
  "is_chain_valid H (tamper_previous_hash 0 p s) = is_chain_valid H s"
proof -
  have "(hash (chain (tamper_previous_hash 0 p s) ! i) =
           calculate_hash H (store s) (chain (tamper_previous_hash 0 p s) ! i) \<and>
         previous_hash (chain (tamper_previous_hash 0 p s) ! i) =
           hash (chain (tamper_previous_hash 0 p s) ! (i - 1))) =
        (hash (chain s ! i) = calculate_hash H (store s) (chain s ! i) \<and>
         previous_hash (chain s ! i) = hash (chain s ! (i - 1)))"
    if "0 < i" "i < length (chain s)" for i
  proof -
    from that have a: "chain (tamper_previous_hash 0 p s) ! i = chain s ! i"
      by (simp add: tamper_previous_hash_nth)
    from that have "hash (chain (tamper_previous_hash 0 p s) ! (i - 1)) = hash (chain s ! (i - 1))"
      by (simp add: tamper_previous_hash_nth)
    with a show ?thesis by simp
  qed
  then show ?thesis unfolding is_chain_valid_iff by auto
qed

lemma single_block_valid: "length (chain s) = 1 \<Longrightarrow> is_chain_valid H s"
  by (simp add: is_chain_valid_def)

lemma calculate_hash_upd:
  "transactions b \<noteq> r \<Longrightarrow> calculate_hash H (\<sigma>(r := xs)) b = calculate_hash H \<sigma> b"
  by (simp add: calculate_hash_def block_data_def)

lemma is_chain_valid_add:
  assumes "reachable H s"
  shows "is_chain_valid H (add_transaction j x y a s) = is_chain_valid H s"
proof -
  have "calculate_hash H (store (add_transaction j x y a s)) (chain s ! i) =
      calculate_hash H (store s) (chain s ! i)" if "i < length (chain s)" for i
  proof -
    from that have "chain s ! i \<in> set (chain s)" by simp
    with reachable_disjoint [OF assms] have "transactions (chain s ! i) \<noteq> pending_transactions s"
      by blast
    then show ?thesis by (simp add: add_transaction_def Let_def calculate_hash_upd)
  qed
  moreover have "chain (add_transaction j x y a s) = chain s"
    by (simp add: add_transaction_def Let_def)
  ultimately show ?thesis unfolding is_chain_valid_iff by auto
qed


lemma demo_block_stored: "take 4 (hash demo_block) = ''ffff''"
proof -
  have "hash demo_block =
      calculate_hash toy_digest (store demo1) (new_block toy_digest (store demo1) 1 t1 1 (hash (last (chain demo1))))"
    unfolding demo_block_def using new_block_hash by simp
  then show ?thesis by (simp add: toy_calculate_hash)
qed

lemma demo_block_recomputed: "take 4 (calculate_hash toy_digest \<sigma> demo_block) = ''0000''"
  by (simp add: toy_calculate_hash demo_block_def)

lemma demo_genesis_hash: "take 4 (hash (create_genesis_block toy_digest t0 (\<lambda>_. []) 0)) = ''ffff''"
proof -
  have "hash (create_genesis_block toy_digest t0 (\<lambda>_. []) 0) =
      calculate_hash toy_digest (\<lambda>_. []) (create_genesis_block toy_digest t0 (\<lambda>_. []) 0)"
    unfolding create_genesis_block_def by (rule new_block_hash)
  then show ?thesis by (simp add: toy_calculate_hash create_genesis_block_def)
qed

lemma demo2_chain: "chain demo2 = [create_genesis_block toy_digest t0 (\<lambda>_. []) 0, demo_block]"
  by (simp add: demo2_def demo1_fields)

lemma demo0_chain: "chain demo0 = [create_genesis_block toy_digest t0 (\<lambda>_. []) 0]"
  by (simp add: demo0_def init_def Let_def)

section \<open>The string model on the concrete run\<close>

text \<open>
  What \<open>str\<close> and \<open>repr\<close> give on the values of the concrete run, as Python prints them.
\<close>

lemma str_nat_numeral_examples:
  "str_nat 0 = ''0''" "str_nat 10 = ''10''" "str_nat 2024 = ''2024''" "str_nat 13489 = ''13489''"
  by (simp_all add: str_nat.simps digit_char_def char_of_def bit_iff_odd)

lemma replicate_3: "replicate 3 x = [x, x, x]"
  by (simp add: numeral_3_eq_3)

lemma str_datetime_examples:
  "str_datetime t1 = ''2024-01-02 03:05:00''"
  "str_datetime t0 = ''2024-01-02 03:04:05.000678''"
  by (simp_all add: str_datetime_def t0_def t1_def zfill_def replicate_3 str_nat.simps digit_char_def char_of_def
      bit_iff_odd)

lemma str_transactions_example:
  "str_transactions [tx_AB, reward_transaction ''M'' ''bbbbbbbbbb''] =
     ''[{'sender': 'A', 'recipient': 'B', 'amount': 10, 'id': 'aaaaaaaaaa'}, {'sender': 'Blockchain', 'recipient': 'M', 'amount': 1, 'id': 'bbbbbbbbbb'}]''"
  by (simp add: str_transactions_def str_transaction_def repr_str_def repr_quote_def repr_char_def
      str_int_def str_nat.simps digit_char_def char_of_def bit_iff_odd tx_AB_def
      reward_transaction_def Let_def)

lemma repr_str_examples:
  "repr_str ''it's'' = [CHR 0x22] @ ''it's'' @ [CHR 0x22]"
  "repr_str [CHR ''a'', CHR 0x0A] = [CHR 0x27, CHR ''a'', CHR 0x5C, CHR ''n'', CHR 0x27]"
  by (simp_all add: repr_str_def repr_quote_def repr_char_def Let_def)

lemma demo_block_data:
  "block_data (store demo2) demo_block =
     ''12024-01-02 03:05:00[{'sender': 'A', 'recipient': 'B', 'amount': 10, 'id': 'aaaaaaaaaa'}]'' @
     hash (create_genesis_block toy_digest t0 (\<lambda>_. []) 0) @ ''3''"
  by (simp add: block_data_def demo2_def demo_block_def demo1_fields t1_def
      str_datetime_def zfill_def str_transactions_def str_transaction_def repr_str_def
      repr_quote_def repr_char_def str_int_def str_nat.simps digit_char_def char_of_def
      bit_iff_odd tx_AB_def Let_def)

section \<open>Claims\<close>

text \<open>
  C5. \<open>get_balance(address)\<close> is the fold over the committed transactions, in chain order
  and block order, that subtracts the amount when the sender is the address and otherwise
  adds it when the recipient is the address. A transaction whose sender and recipient
  are both the address takes the amount off and adds nothing. In a state reached through
  the public operations the contents of the pool do not count: whatever the pool's list
  holds, the balance is the same. An address in no committed transaction has balance 0.
\<close>

theorem get_balance_fold:
  "get_balance s a = spec_balance s a \<and>
   (sender t = a \<and> recipient t = a \<longrightarrow> balance_txs a [t] bal = bal - amount t) \<and>
   (reachable H s \<longrightarrow>
      get_balance (s\<lparr>store := (store s)(pending_transactions s := xs)\<rparr>) a = get_balance s a \<and>
      get_balance (add_transaction i x y m s) a = get_balance s a) \<and>
   ((\<forall>u \<in> set (committed_transactions s). sender u \<noteq> a \<and> recipient u \<noteq> a) \<longrightarrow>
      get_balance s a = 0)"
proof (intro conjI impI)
  show "get_balance s a = spec_balance s a" by (rule get_balance_spec)
next
  assume "sender t = a \<and> recipient t = a"
  then show "balance_txs a [t] bal = bal - amount t" by simp
next
  assume "reachable H s"
  then have ok: "\<forall>b \<in> set (chain s). transactions b \<noteq> pending_transactions s"
    using reachable_heap_ok heap_ok_def by blast
  then show "get_balance (s\<lparr>store := (store s)(pending_transactions s := xs)\<rparr>) a = get_balance s a"
    by (simp add: get_balance_def balance_blocks_upd)
  from ok show "get_balance (add_transaction i x y m s) a = get_balance s a"
    by (simp add: get_balance_def add_transaction_def Let_def balance_blocks_upd)
next
  assume "\<forall>u \<in> set (committed_transactions s). sender u \<noteq> a \<and> recipient u \<noteq> a"
  then show "get_balance s a = 0"
    by (simp add: get_balance_spec spec_balance_def foldl_spec_step_absent)
qed

theorem get_balance_fold_witness:
  "reachable toy_digest demo2 \<and> committed_transactions demo2 = [tx_AB] \<and>
   get_balance demo2 ''Z'' = 0 \<and>
   balance_txs ''Z'' [\<lparr>sender = ''Z'', recipient = ''Z'', amount = 5, tx_id = ''c''\<rparr>] 0 = - 5 \<and>
   get_balance (add_transaction ''c'' ''Z'' ''Z'' 5 demo2) ''Z'' = 0 \<and>
   get_balance demo2 ''A'' = - 10 \<and> get_balance demo2 ''B'' = 10 \<and> get_balance demo2 ''M'' = 0"
proof -
  have absent: "\<forall>u \<in> set (committed_transactions demo2). sender u \<noteq> ''Z'' \<and> recipient u \<noteq> ''Z''"
    by (simp add: demo2_committed tx_AB_def)
  note th = get_balance_fold [of demo2 _
      "\<lparr>sender = ''Z'', recipient = ''Z'', amount = 5, tx_id = ''c''\<rparr>" 0 toy_digest
      "[]" "''c''" "''Z''" "''Z''" 5]
  have z: "get_balance demo2 ''Z'' = 0"
    using th [of "''Z''"] absent by blast
  have self: "balance_txs ''Z'' [\<lparr>sender = ''Z'', recipient = ''Z'', amount = 5, tx_id = ''c''\<rparr>] 0 = - 5"
    using th [of "''Z''"] by simp
  have pend: "get_balance (add_transaction ''c'' ''Z'' ''Z'' 5 demo2) ''Z'' = 0"
    using th [of "''Z''"] reachable_demo2 z by simp
  have bal: "get_balance demo2 ''A'' = - 10 \<and> get_balance demo2 ''B'' = 10 \<and> get_balance demo2 ''M'' = 0"
    using th [of "''A''"] th [of "''B''"] th [of "''M''"]
    by (simp add: spec_balance_def demo2_committed spec_step_def tx_AB_def)
  show ?thesis using reachable_demo2 demo2_committed z self pend bal by simp
qed


text \<open>
  C3. \<open>mine_block\<close> returns \<open>False\<close> exactly when the pool is empty at the call, and then the
  state is the one it was called on. When it returns \<open>True\<close> the pool was not empty and
  the chain is the old chain with one block appended. With a pool that is not empty, a
  chain that is not empty and a nonce that the proof of work accepts, the call does return
  \<open>True\<close>.
\<close>

theorem mine_block_outcome:
  "(mine_block H now new_id m s = Some (Inr (False, s')) \<longleftrightarrow> pool s = [] \<and> s' = s) \<and>
   (mine_block H now new_id m s = Some (Inr (True, s')) \<longrightarrow>
      pool s \<noteq> [] \<and> (\<exists>b. chain s' = chain s @ [b])) \<and>
   (pool s \<noteq> [] \<and> chain s \<noteq> [] \<and> (\<exists>n. valid_proof H (hash (candidate H now s)) n) \<longrightarrow>
      (\<exists>s2. mine_block H now new_id m s = Some (Inr (True, s2))))"
proof (intro conjI impI)
  show "mine_block H now new_id m s = Some (Inr (False, s')) \<longleftrightarrow> pool s = [] \<and> s' = s"
  proof
    assume "mine_block H now new_id m s = Some (Inr (False, s'))"
    then show "pool s = [] \<and> s' = s" by (rule mine_block_False)
  next
    assume a: "pool s = [] \<and> s' = s"
    then have "mine_block H now new_id m s = Some (Inr (False, s))"
      by (simp add: mine_block_empty)
    with a show "mine_block H now new_id m s = Some (Inr (False, s'))" by simp
  qed
next
  assume "mine_block H now new_id m s = Some (Inr (True, s'))"
  from mine_block_True [OF this] show "pool s \<noteq> []" by blast
next
  assume "mine_block H now new_id m s = Some (Inr (True, s'))"
  from mine_block_True [OF this] show "\<exists>b. chain s' = chain s @ [b]" by blast
next
  assume a: "pool s \<noteq> [] \<and> chain s \<noteq> [] \<and> (\<exists>n. valid_proof H (hash (candidate H now s)) n)"
  then obtain n where "valid_proof H (hash (candidate H now s)) n" by blast
  then have "proof_of_work H (hash (candidate H now s)) =
      Some (LEAST n. valid_proof H (hash (candidate H now s)) n)"
    by (rule proof_of_work_least)
  with a show "\<exists>s2. mine_block H now new_id m s = Some (Inr (True, s2))"
    using mine_block_returns by blast
qed

theorem mine_block_outcome_witness:
  "pool demo0 = [] \<and>
   mine_block toy_digest t1 ''bbbbbbbbbb'' ''M'' demo0 = Some (Inr (False, demo0)) \<and>
   pool demo1 \<noteq> [] \<and> chain demo1 \<noteq> [] \<and> valid_proof toy_digest (hash (candidate toy_digest t1 demo1)) 3 \<and>
   mine_block toy_digest t1 ''bbbbbbbbbb'' ''M'' demo1 = Some (Inr (True, demo2)) \<and>
   chain demo2 = chain demo1 @ [demo_block]"
proof -
  note th = mine_block_outcome [of toy_digest t1 "''bbbbbbbbbb''" "''M''"]
  have f: "mine_block toy_digest t1 ''bbbbbbbbbb'' ''M'' demo0 = Some (Inr (False, demo0))"
    using th [of demo0 demo0] demo_pools by blast
  have "\<exists>b. chain demo2 = chain demo1 @ [b]"
    using th [of demo1 demo2] demo_mine by blast
  then show ?thesis
    using f demo_mine demo_pools by (simp add: toy_valid_proof demo2_def demo1_fields)
qed

text \<open>
  C4. When the pool and the chain are not empty and some nonce is accepted for the
  candidate block's nonce-0 hash, \<open>mine_block\<close> returns \<open>True\<close> and the nonce of the block it
  appended is the least accepted one: the digest of that hash followed by the decimal
  nonce starts with \<open>0000\<close>, and for no smaller nonce it does.
\<close>

theorem mined_nonce_least:
  assumes "pool s \<noteq> []" and "chain s \<noteq> []"
    and "valid_proof H (hash (candidate H now s)) n0"
  shows "\<exists>s'. mine_block H now new_id m s = Some (Inr (True, s')) \<and>
           nonce (last (chain s')) = (LEAST n. valid_proof H (hash (candidate H now s)) n) \<and>
           nonce (last (chain s')) \<le> n0 \<and>
           take 4 (H (hash (candidate H now s) @ str_nat (nonce (last (chain s'))))) = ''0000'' \<and>
           (\<forall>k < nonce (last (chain s')).
              take 4 (H (hash (candidate H now s) @ str_nat k)) \<noteq> ''0000'') \<and>
           hash (candidate H now s) = calculate_hash H (store s) (candidate H now s) \<and>
           nonce (candidate H now s) = 0"
proof -
  let ?h = "hash (candidate H now s)"
  let ?l = "LEAST n. valid_proof H ?h n"
  have pw: "proof_of_work H ?h = Some ?l" using assms(3) by (rule proof_of_work_least)
  from mine_block_returns [OF assms(1,2) pw, of new_id m]
  obtain s' where r: "mine_block H now new_id m s = Some (Inr (True, s'))"
    and c: "chain s' = chain s @ [(candidate H now s)\<lparr>nonce := ?l\<rparr>]"
    by simp
  have n: "nonce (last (chain s')) = ?l" using c by simp
  have v: "valid_proof H ?h ?l" using assms(3) by (rule LeastI)
  have le: "?l \<le> n0" using assms(3) by (rule Least_le)
  have m: "\<not> valid_proof H ?h k" if "k < ?l" for k
    using that by (rule not_less_Least)
  have hc: "?h = calculate_hash H (store s) (candidate H now s)"
    unfolding candidate_def by (rule new_block_hash)
  have v': "take 4 (H (?h @ str_nat (nonce (last (chain s'))))) = ''0000''"
    using v unfolding n valid_proof_def .
  have m': "\<forall>k < nonce (last (chain s')). take 4 (H (?h @ str_nat k)) \<noteq> ''0000''"
    using m unfolding n valid_proof_def by blast
  have le': "nonce (last (chain s')) \<le> n0" using le unfolding n .
  have z: "nonce (candidate H now s) = 0" by simp
  show ?thesis
    by (intro exI [of _ s'] conjI r n le' v' m' hc z)
qed

theorem mined_nonce_least_witness:
  "pool demo1 \<noteq> [] \<and> chain demo1 \<noteq> [] \<and>
   valid_proof toy_digest (hash (candidate toy_digest t1 demo1)) 13 \<and>
   mine_block toy_digest t1 ''bbbbbbbbbb'' ''M'' demo1 = Some (Inr (True, demo2)) \<and>
   nonce (last (chain demo2)) = 3 \<and> nonce (last (chain demo2)) \<le> 13"
proof -
  have p: "pool demo1 \<noteq> []" and c: "chain demo1 \<noteq> []"
    by (simp_all add: demo_pools demo1_fields)
  have v: "valid_proof toy_digest (hash (candidate toy_digest t1 demo1)) 13"
    by (simp add: toy_valid_proof)
  from mined_nonce_least [OF p c v, of "''bbbbbbbbbb''" "''M''"]
  have "nonce (last (chain demo2)) \<le> 13" using demo_mine by auto
  then show ?thesis
    using p c v demo_mine by (simp add: demo2_def demo_block_def)
qed

text \<open>
  C6. In a state reached through the public operations, after \<open>mine_block\<close> returns \<open>True\<close>
  the pool is the one-element list holding the reward: sender \<open>Blockchain\<close>, recipient the
  miner's address, amount 1, and the identifier just generated. The transactions that
  were pending are the new block's transactions; when the generated identifier is not
  the identifier of a transaction that was pending, none of those is in the pool.
\<close>

theorem mine_block_pool:
  assumes "reachable H s" and "mine_block H now new_id m s = Some (Inr (True, s'))"
  shows "pool s' = [\<lparr>sender = ''Blockchain'', recipient = m, amount = 1, tx_id = new_id\<rparr>] \<and>
         block_transactions s' (last (chain s')) = pool s \<and>
         (new_id \<notin> tx_id ` set (pool s) \<longrightarrow> set (pool s) \<inter> set (pool s') = {})"
proof -
  from mine_block_candidate [OF assms(2)] obtain n where
    c: "chain s' = chain s @ [(candidate H now s)\<lparr>nonce := n\<rparr>]"
    and p: "pending_transactions s' = next_ref s"
    and st: "store s' = (store s)(next_ref s := [reward_transaction m new_id])"
    by blast
  have "pending_transactions s < next_ref s"
    using reachable_heap_ok [OF assms(1)] by (simp add: heap_ok_def)
  then have ne: "pending_transactions s \<noteq> next_ref s" by simp
  have 1: "pool s' = [\<lparr>sender = ''Blockchain'', recipient = m, amount = 1, tx_id = new_id\<rparr>]"
    by (simp add: pool_def p st reward_transaction_def)
  have 2: "block_transactions s' (last (chain s')) = pool s"
    using ne by (simp add: block_transactions_def c st pool_def)
  have 3: "set (pool s) \<inter> set (pool s') = {}" if "new_id \<notin> tx_id ` set (pool s)"
  proof -
    let ?r = "\<lparr>sender = ''Blockchain'', recipient = m, amount = 1, tx_id = new_id\<rparr>"
    have "?r \<notin> set (pool s)"
    proof
      assume "?r \<in> set (pool s)"
      then have "tx_id ?r \<in> tx_id ` set (pool s)" by (rule imageI)
      with that show False by simp
    qed
    then show ?thesis unfolding 1 by simp
  qed
  from 1 2 3 show ?thesis by blast
qed

theorem mine_block_pool_witness:
  "reachable toy_digest demo1 \<and>
   mine_block toy_digest t1 ''bbbbbbbbbb'' ''M'' demo1 = Some (Inr (True, demo2)) \<and>
   pool demo1 = [tx_AB] \<and>
   pool demo2 = [\<lparr>sender = ''Blockchain'', recipient = ''M'', amount = 1, tx_id = ''bbbbbbbbbb''\<rparr>] \<and>
   block_transactions demo2 (last (chain demo2)) = [tx_AB] \<and>
   set (pool demo1) \<inter> set (pool demo2) = {}"
proof -
  note th = mine_block_pool [OF reachable_demo1 demo_mine]
  have "''bbbbbbbbbb'' \<notin> tx_id ` set (pool demo1)"
    by (simp add: demo_pools tx_AB_def)
  with th show ?thesis
    using reachable_demo1 demo_mine by (auto simp: demo_pools tx_AB_def)
qed

text \<open>
  C10. After \<open>mine_block\<close> has returned \<open>True\<close> the pool is the one-element list holding
  the reward transaction (sender \<open>Blockchain\<close>, recipient the miner's address, amount 1,
  the identifier just generated), so it is not empty and a call of \<open>mine_block\<close> on that
  state does not return \<open>False\<close>. \<open>add_transaction\<close> appends one transaction to the pool
  and removes none. In a state reached through the public operations the pool is empty
  only while the chain is the genesis block alone, that is before the first successful
  \<open>mine_block\<close>.
\<close>

theorem pool_nonempty_after_mine:
  "(mine_block H now new_id m s = Some (Inr (True, s')) \<longrightarrow>
      pool s' = [\<lparr>sender = ''Blockchain'', recipient = m, amount = 1, tx_id = new_id\<rparr>] \<and>
      pool s' \<noteq> [] \<and> mine_block H now2 new_id2 m2 s' \<noteq> Some (Inr (False, s2))) \<and>
   pool (add_transaction i x y a s) = pool s @ [\<lparr>sender = x, recipient = y, amount = a, tx_id = i\<rparr>] \<and>
   (reachable H s \<and> pool s = [] \<longrightarrow> length (chain s) = 1)"
proof (intro conjI impI)
  assume a: "mine_block H now new_id m s = Some (Inr (True, s'))"
  from mine_block_True [OF a] obtain n where
    p: "pending_transactions s' = next_ref s"
    and st: "store s' = (store s)(next_ref s := [reward_transaction m new_id])"
    by blast
  show r: "pool s' = [\<lparr>sender = ''Blockchain'', recipient = m, amount = 1, tx_id = new_id\<rparr>]"
    by (simp add: pool_def p st reward_transaction_def)
  then show ne: "pool s' \<noteq> []" by simp
  show "mine_block H now2 new_id2 m2 s' \<noteq> Some (Inr (False, s2))"
  proof
    assume "mine_block H now2 new_id2 m2 s' = Some (Inr (False, s2))"
    then have "pool s' = []" by (rule mine_block_False [THEN conjunct1])
    with ne show False by simp
  qed
next
  show "pool (add_transaction i x y a s) = pool s @ [\<lparr>sender = x, recipient = y, amount = a, tx_id = i\<rparr>]"
    by (simp add: pool_def add_transaction_def Let_def)
next
  assume "reachable H s \<and> pool s = []"
  then show "length (chain s) = 1" using reachable_empty_pool by blast
qed

theorem pool_nonempty_after_mine_witness:
  "mine_block toy_digest t1 ''bbbbbbbbbb'' ''M'' demo1 = Some (Inr (True, demo2)) \<and>
   pool demo2 = [\<lparr>sender = ''Blockchain'', recipient = ''M'', amount = 1, tx_id = ''bbbbbbbbbb''\<rparr>] \<and>
   mine_block toy_digest t1 ''cccccccccc'' ''M'' demo2 \<noteq> Some (Inr (False, demo2)) \<and>
   pool (add_transaction ''cccccccccc'' ''Z'' ''Z'' 5 demo2) =
     [\<lparr>sender = ''Blockchain'', recipient = ''M'', amount = 1, tx_id = ''bbbbbbbbbb''\<rparr>,
      \<lparr>sender = ''Z'', recipient = ''Z'', amount = 5, tx_id = ''cccccccccc''\<rparr>] \<and>
   reachable toy_digest demo0 \<and> pool demo0 = [] \<and> length (chain demo0) = 1"
proof -
  have r0: "reachable toy_digest demo0" unfolding demo0_def by (rule reach_init)
  note th = pool_nonempty_after_mine [of toy_digest t1 "''bbbbbbbbbb''" "''M''" demo1 demo2
      t1 "''cccccccccc''" "''M''" demo2 "''cccccccccc''" "''Z''" "''Z''" 5]
  from th demo_mine have
    p: "pool demo2 = [\<lparr>sender = ''Blockchain'', recipient = ''M'', amount = 1, tx_id = ''bbbbbbbbbb''\<rparr>]"
    and f: "mine_block toy_digest t1 ''cccccccccc'' ''M'' demo2 \<noteq> Some (Inr (False, demo2))"
    by simp_all
  have l: "length (chain demo0) = 1"
    using pool_nonempty_after_mine [of toy_digest t1 "''bbbbbbbbbb''" "''M''" demo0 demo0
        t1 "''cccccccccc''" "''M''" demo0 "''cccccccccc''" "''Z''" "''Z''" 5] r0 demo_pools(1)
    by simp
  have a2: "pool (add_transaction ''cccccccccc'' ''Z'' ''Z'' 5 demo2) =
      pool demo2 @ [\<lparr>sender = ''Z'', recipient = ''Z'', amount = 5, tx_id = ''cccccccccc''\<rparr>]"
    using pool_nonempty_after_mine [of toy_digest t1 "''bbbbbbbbbb''" "''M''" demo2 demo2
        t1 "''cccccccccc''" "''M''" demo2 "''cccccccccc''" "''Z''" "''Z''" 5]
    by simp
  show ?thesis
    by (intro conjI demo_mine p f r0 demo_pools(1) l) (simp add: a2 p)
qed


text \<open>
  C8. \<open>get_transaction_by_id\<close> returns the first transaction with the identifier among the
  committed transactions, blocks in chain order and transactions in their order in the
  block, and \<open>None\<close> exactly when no committed transaction has the identifier. In a state
  reached through the public operations the pool is not looked at: whatever the pool's
  list holds, and after any \<open>add_transaction\<close>, the result is the same.
\<close>

theorem get_transaction_by_id_scan:
  "get_transaction_by_id s i = List.find (\<lambda>t. tx_id t = i) (committed_transactions s) \<and>
   (get_transaction_by_id s i = None \<longleftrightarrow> i \<notin> tx_id ` set (committed_transactions s)) \<and>
   (reachable H s \<longrightarrow>
      get_transaction_by_id (s\<lparr>store := (store s)(pending_transactions s := xs)\<rparr>) i =
        get_transaction_by_id s i \<and>
      get_transaction_by_id (add_transaction j x y a s) i = get_transaction_by_id s i)"
proof (intro conjI impI)
  show "get_transaction_by_id s i = List.find (\<lambda>t. tx_id t = i) (committed_transactions s)"
    by (rule get_transaction_by_id_find)
next
  show "get_transaction_by_id s i = None \<longleftrightarrow> i \<notin> tx_id ` set (committed_transactions s)"
    by (auto simp: get_transaction_by_id_find find_None_iff)
next
  assume r: "reachable H s"
  note d = reachable_disjoint [OF r]
  from d show "get_transaction_by_id (s\<lparr>store := (store s)(pending_transactions s := xs)\<rparr>) i =
      get_transaction_by_id s i"
    by (simp add: get_transaction_by_id_def find_blocks_upd)
  from d show "get_transaction_by_id (add_transaction j x y a s) i = get_transaction_by_id s i"
    by (simp add: get_transaction_by_id_def add_transaction_def Let_def find_blocks_upd)
qed

theorem get_transaction_by_id_scan_witness:
  "reachable toy_digest demo2 \<and> committed_transactions demo3 = [tx_AB] \<and>
   pool demo3 = [reward_transaction ''M'' ''bbbbbbbbbb'', tx_ZZ] \<and>
   get_transaction_by_id demo3 ''aaaaaaaaaa'' = Some tx_AB \<and>
   get_transaction_by_id demo3 ''bbbbbbbbbb'' = None \<and>
   get_transaction_by_id demo3 ''cccccccccc'' = None \<and>
   get_transaction_by_id demo3 ''cccccccccc'' = get_transaction_by_id demo2 ''cccccccccc''"
proof -
  note th = get_transaction_by_id_scan [of demo3]
  have a: "get_transaction_by_id demo3 ''aaaaaaaaaa'' = Some tx_AB"
    using th [of "''aaaaaaaaaa''"] by (simp add: demo3_committed tx_AB_def)
  have b: "get_transaction_by_id demo3 ''bbbbbbbbbb'' = None"
    using th [of "''bbbbbbbbbb''"] by (simp add: demo3_committed tx_AB_def)
  have c: "get_transaction_by_id demo3 ''cccccccccc'' = None"
    using th [of "''cccccccccc''"] by (simp add: demo3_committed tx_AB_def)
  have d: "get_transaction_by_id demo3 ''cccccccccc'' = get_transaction_by_id demo2 ''cccccccccc''"
    using get_transaction_by_id_scan [of demo2 "''cccccccccc''" toy_digest "[]" "''cccccccccc''"
        "''Z''" "''Z''" 5] reachable_demo2
    by (simp add: demo3_def)
  show ?thesis using reachable_demo2 demo3_committed demo3_pool a b c d by simp
qed

text \<open>
  C9. A new ledger has one block, the genesis block: index 0, previous hash \<open>0\<close>, no
  transactions. In every state reached through the public operations the first block is
  a genesis block with no transactions, \<open>add_transaction\<close> leaves every committed block
  and its transactions as they were, and after \<open>mine_block\<close> the committed blocks with
  their transactions, as they were before the call, are a prefix of what they are after.
\<close>

theorem chain_append_only:
  "length (chain (init H now)) = 1 \<and>
   index (chain (init H now) ! 0) = 0 \<and>
   previous_hash (chain (init H now) ! 0) = ''0'' \<and>
   block_transactions (init H now) (chain (init H now) ! 0) = [] \<and>
   (reachable H s \<longrightarrow>
      (\<exists>now0. chain s ! 0 = create_genesis_block H now0 (\<lambda>_. []) 0) \<and>
      index (chain s ! 0) = 0 \<and> previous_hash (chain s ! 0) = ''0'' \<and>
      block_transactions s (chain s ! 0) = [] \<and>
      chain_view (add_transaction i x y a s) = chain_view s \<and>
      (mine_block H now2 new_id m s = Some (Inr (ok, s')) \<longrightarrow>
         prefix (chain_view s) (chain_view s') \<and> prefix (chain s) (chain s')))"
proof (intro conjI impI)
  show "length (chain (init H now)) = 1" by (simp add: init_def Let_def)
  show "index (chain (init H now) ! 0) = 0"
    by (simp add: init_def Let_def create_genesis_block_def)
  show "previous_hash (chain (init H now) ! 0) = ''0''"
    by (simp add: init_def Let_def create_genesis_block_def)
  show "block_transactions (init H now) (chain (init H now) ! 0) = []"
    by (simp add: init_def Let_def block_transactions_def)
next
  assume r: "reachable H s"
  from reachable_genesis [OF r] obtain now0 rest where
    v: "chain_view s = (create_genesis_block H now0 (\<lambda>_. []) 0, []) # rest" by blast
  then obtain bs where c: "chain s = create_genesis_block H now0 (\<lambda>_. []) 0 # bs"
    by (auto simp: chain_view_def)
  from c show "\<exists>now0. chain s ! 0 = create_genesis_block H now0 (\<lambda>_. []) 0" by auto
  from c show "index (chain s ! 0) = 0" by (simp add: create_genesis_block_def)
  from c show "previous_hash (chain s ! 0) = ''0''" by (simp add: create_genesis_block_def)
  from v c show "block_transactions s (chain s ! 0) = []" by (simp add: chain_view_def)
  show "chain_view (add_transaction i x y a s) = chain_view s"
    using reachable_heap_ok [OF r] by (rule chain_view_add)
next
  assume r: "reachable H s" and m: "mine_block H now2 new_id m s = Some (Inr (ok, s'))"
  show p: "prefix (chain_view s) (chain_view s')"
    using reachable_heap_ok [OF r] m by (rule chain_view_prefix)
  then have "prefix (map fst (chain_view s)) (map fst (chain_view s'))" by (rule map_mono_prefix)
  then show "prefix (chain s) (chain s')" by (simp add: chain_view_def comp_def)
qed

theorem chain_append_only_witness:
  "reachable toy_digest demo1 \<and>
   mine_block toy_digest t1 ''bbbbbbbbbb'' ''M'' demo1 = Some (Inr (True, demo2)) \<and>
   chain demo1 = [create_genesis_block toy_digest t0 (\<lambda>_. []) 0] \<and>
   chain demo2 = [create_genesis_block toy_digest t0 (\<lambda>_. []) 0, demo_block] \<and>
   prefix (chain_view demo1) (chain_view demo2) \<and>
   block_transactions demo2 (chain demo2 ! 0) = [] \<and>
   chain_view (add_transaction ''cccccccccc'' ''Z'' ''Z'' 5 demo2) = chain_view demo2"
proof -
  have p: "prefix (chain_view demo1) (chain_view demo2)"
    using chain_append_only [of toy_digest t0 demo1 "''c''" "''Z''" "''Z''" 5 t1 "''bbbbbbbbbb''"
        "''M''" True demo2] reachable_demo1 demo_mine by blast
  have g: "block_transactions demo2 (chain demo2 ! 0) = [] \<and>
      chain_view (add_transaction ''cccccccccc'' ''Z'' ''Z'' 5 demo2) = chain_view demo2"
    using chain_append_only [of toy_digest t0 demo2 "''cccccccccc''" "''Z''" "''Z''" 5 t1
        "''bbbbbbbbbb''" "''M''" True demo2] reachable_demo2 by blast
  show ?thesis
    using p g reachable_demo1 demo_mine by (simp add: demo2_def demo1_fields)
qed


text \<open>
  C1. Line 86 of \<open>mine_block\<close> assigns the nonce and nothing recomputes the hash: in a
  state reached through the public operations, the block that a successful
  \<open>mine_block\<close> commits stores the digest of its fields with nonce 0, not with its own
  nonce. \<open>is_chain_valid\<close> can hold afterwards only if the digest with the mined nonce
  happens to equal the digest with nonce 0.
\<close>

theorem committed_hash_is_provisional:
  assumes "reachable H s" and "mine_block H now new_id m s = Some (Inr (True, s'))"
  shows "hash (last (chain s')) = calculate_hash H (store s') ((last (chain s'))\<lparr>nonce := 0\<rparr>) \<and>
         (is_chain_valid H s' \<longrightarrow>
            calculate_hash H (store s') (last (chain s')) =
            calculate_hash H (store s') ((last (chain s'))\<lparr>nonce := 0\<rparr>))"
proof -
  from mined_block_view [OF assms] obtain n where
    l: "last (chain s') = (candidate H now s)\<lparr>nonce := n\<rparr>"
    and t: "block_transactions s' (last (chain s')) = pool s" by blast
  have tr: "store s' (transactions (candidate H now s)) = pool s"
    using t unfolding l by (simp add: block_transactions_def)
  have "calculate_hash H (store s') ((last (chain s'))\<lparr>nonce := 0\<rparr>) =
      H (block_data (\<lambda>_. pool s) (candidate H now s))"
    unfolding l calculate_hash_def using tr by (simp add: block_data_def)
  then have 1: "hash (last (chain s')) = calculate_hash H (store s') ((last (chain s'))\<lparr>nonce := 0\<rparr>)"
    unfolding l by (simp add: candidate_hash)
  have 2: "calculate_hash H (store s') (last (chain s')) = hash (last (chain s'))"
    if v: "is_chain_valid H s'"
  proof -
    from mine_block_candidate [OF assms(2)] obtain k where
      c: "chain s' = chain s @ [(candidate H now s)\<lparr>nonce := k\<rparr>]" and ne: "chain s \<noteq> []"
      by blast
    let ?i = "length (chain s)"
    have "0 < ?i \<and> ?i < length (chain s')" using c ne by simp
    with v have "hash (chain s' ! ?i) = calculate_hash H (store s') (chain s' ! ?i)"
      unfolding is_chain_valid_iff by blast
    moreover have "chain s' ! ?i = last (chain s')" using c by simp
    ultimately show ?thesis by simp
  qed
  from 1 2 show ?thesis by simp
qed

theorem committed_hash_is_provisional_witness:
  "reachable toy_digest demo1 \<and>
   mine_block toy_digest t1 ''bbbbbbbbbb'' ''M'' demo1 = Some (Inr (True, demo2)) \<and>
   nonce (last (chain demo2)) = 3 \<and>
   hash (last (chain demo2)) = calculate_hash toy_digest (store demo2) ((last (chain demo2))\<lparr>nonce := 0\<rparr>) \<and>
   hash (last (chain demo2)) \<noteq> calculate_hash toy_digest (store demo2) (last (chain demo2)) \<and>
   \<not> is_chain_valid toy_digest demo2"
proof -
  note th = committed_hash_is_provisional [OF reachable_demo1 demo_mine]
  have l: "last (chain demo2) = demo_block" by (simp add: demo2_def)
  have n: "nonce (last (chain demo2)) = 3" unfolding l by (simp add: demo_block_def)
  have ne: "hash (last (chain demo2)) \<noteq> calculate_hash toy_digest (store demo2) (last (chain demo2))"
    unfolding l by (rule demo_block_hash)
  with th have "\<not> is_chain_valid toy_digest demo2" by auto
  with th n ne show ?thesis using reachable_demo1 demo_mine by simp
qed

text \<open>
  C7. In a state reached through the public operations, the block that a successful
  \<open>mine_block\<close> appends has the old chain length as index, the clock reading as
  timestamp, the stored hash of the old last block as previous hash, and the contents of
  the pool at the call as transactions, also after a later \<open>add_transaction\<close>. Its stored
  hash is the candidate's nonce-0 hash: that hash is kept, not discarded.
\<close>

theorem mined_block_fields:
  assumes "reachable H s" and "mine_block H now new_id m s = Some (Inr (True, s'))"
  shows "index (last (chain s')) = length (chain s) \<and>
         timestamp (last (chain s')) = now \<and>
         previous_hash (last (chain s')) = hash (last (chain s)) \<and>
         block_transactions s' (last (chain s')) = pool s \<and>
         block_transactions (add_transaction i x y a s') (last (chain s')) = pool s \<and>
         nonce (candidate H now s) = 0 \<and>
         hash (last (chain s')) = hash (candidate H now s)"
proof -
  from mined_block_view [OF assms] obtain n where
    l: "last (chain s') = (candidate H now s)\<lparr>nonce := n\<rparr>"
    and t: "block_transactions s' (last (chain s')) = pool s" by blast
  have r': "reachable H s'" using assms by (rule reach_mine)
  have "chain_view (add_transaction i x y a s') = chain_view s'"
    using reachable_heap_ok [OF r'] by (rule chain_view_add)
  then have "map snd (chain_view (add_transaction i x y a s')) = map snd (chain_view s')" by simp
  then have "map (block_transactions (add_transaction i x y a s')) (chain s') =
      map (block_transactions s') (chain s')"
    by (simp add: chain_view_def comp_def add_transaction_def Let_def)
  moreover have "last (chain s') \<in> set (chain s')"
    using mine_block_candidate [OF assms(2)] by auto
  ultimately have "block_transactions (add_transaction i x y a s') (last (chain s')) =
      block_transactions s' (last (chain s'))" by simp
  with t l show ?thesis by simp
qed

theorem mined_block_fields_witness:
  "reachable toy_digest demo1 \<and>
   mine_block toy_digest t1 ''bbbbbbbbbb'' ''M'' demo1 = Some (Inr (True, demo2)) \<and>
   index (last (chain demo2)) = 1 \<and> length (chain demo1) = 1 \<and>
   block_transactions demo2 (last (chain demo2)) = [tx_AB] \<and>
   block_transactions demo3 (last (chain demo2)) = [tx_AB] \<and>
   hash (last (chain demo2)) = hash (candidate toy_digest t1 demo1)"
proof -
  note th = mined_block_fields [OF reachable_demo1 demo_mine, of "''cccccccccc''" "''Z''" "''Z''" 5]
  then show ?thesis
    using reachable_demo1 demo_mine by (simp add: demo_pools demo1_fields demo3_def)
qed


text \<open>
  C2, as the code has it. \<open>is_chain_valid\<close> holds on a new ledger, and in a state reached
  through the public operations \<open>add_transaction\<close> does not change its value. In such a
  state, giving a block at an index from 1 on another \<open>previous_hash\<close> makes it false,
  and changing the transactions of a block at an index from 1 on makes it false whenever
  the digest then recomputed for that block differs from its stored hash. The genesis
  block is never re-validated: changing its \<open>previous_hash\<close> leaves the result as it
  was, and on a chain of one block the result is true whatever the block holds.
\<close>

theorem is_chain_valid_detection:
  "is_chain_valid H (init H now) \<and>
   (reachable H s \<longrightarrow>
      is_chain_valid H (add_transaction j x y a s) = is_chain_valid H s \<and>
      (0 < i \<and> i < length (chain s) \<and> p \<noteq> previous_hash (chain s ! i) \<longrightarrow>
         \<not> is_chain_valid H (tamper_previous_hash i p s)) \<and>
      (0 < i \<and> i < length (chain s) \<and>
       calculate_hash H (store (tamper_transactions i xs s)) (chain s ! i) \<noteq> hash (chain s ! i) \<longrightarrow>
         \<not> is_chain_valid H (tamper_transactions i xs s))) \<and>
   is_chain_valid H (tamper_previous_hash 0 q s) = is_chain_valid H s \<and>
   (length (chain s) = 1 \<longrightarrow> is_chain_valid H s \<and> is_chain_valid H (tamper_transactions 0 xs s))"
proof (intro conjI impI)
  show "is_chain_valid H (init H now)"
    by (simp add: is_chain_valid_def init_def Let_def)
next
  assume "reachable H s"
  then show "is_chain_valid H (add_transaction j x y a s) = is_chain_valid H s"
    by (rule is_chain_valid_add)
next
  assume "reachable H s" and "0 < i \<and> i < length (chain s) \<and> p \<noteq> previous_hash (chain s ! i)"
  then show "\<not> is_chain_valid H (tamper_previous_hash i p s)"
    using tamper_previous_hash_detected by blast
next
  assume "0 < i \<and> i < length (chain s) \<and>
    calculate_hash H (store (tamper_transactions i xs s)) (chain s ! i) \<noteq> hash (chain s ! i)"
  then show "\<not> is_chain_valid H (tamper_transactions i xs s)"
    using tamper_transactions_detected by blast
next
  show "is_chain_valid H (tamper_previous_hash 0 q s) = is_chain_valid H s"
    by (rule genesis_previous_hash_unread)
next
  assume "length (chain s) = 1"
  then show "is_chain_valid H s" by (rule single_block_valid)
next
  assume "length (chain s) = 1"
  then have "length (chain (tamper_transactions 0 xs s)) = 1"
    by (simp add: tamper_transactions_def)
  then show "is_chain_valid H (tamper_transactions 0 xs s)" by (rule single_block_valid)
qed

theorem is_chain_valid_detection_witness:
  "is_chain_valid toy_digest (init toy_digest t0) \<and>
   reachable toy_digest demo2 \<and> length (chain demo2) = 2 \<and>
   previous_hash (chain demo2 ! 1) \<noteq> ''tampered'' \<and>
   \<not> is_chain_valid toy_digest (tamper_previous_hash 1 ''tampered'' demo2) \<and>
   calculate_hash toy_digest (store (tamper_transactions 1 [] demo2)) (chain demo2 ! 1) \<noteq>
     hash (chain demo2 ! 1) \<and>
   \<not> is_chain_valid toy_digest (tamper_transactions 1 [] demo2) \<and>
   length (chain demo0) = 1 \<and>
   is_chain_valid toy_digest (tamper_transactions 0 [tx_AB] demo0)"
proof -
  have l: "length (chain demo2) = 2" by (simp add: demo2_chain)
  have "take 4 (previous_hash (chain demo2 ! 1)) = ''ffff''"
    by (simp add: demo2_chain demo_block_def demo1_fields demo_genesis_hash)
  then have p: "previous_hash (chain demo2 ! 1) \<noteq> ''tampered''" by auto
  have "take 4 (calculate_hash toy_digest (store (tamper_transactions 1 [] demo2)) (chain demo2 ! 1)) \<noteq>
      take 4 (hash (chain demo2 ! 1))"
    by (simp add: demo2_chain demo_block_stored demo_block_recomputed)
  then have h: "calculate_hash toy_digest (store (tamper_transactions 1 [] demo2)) (chain demo2 ! 1) \<noteq>
      hash (chain demo2 ! 1)" by auto
  note th = is_chain_valid_detection [of toy_digest t0 demo2 "''c''" "''Z''" "''Z''" 5 1 "''tampered''" "[]"
      "''tampered''"]
  have a: "\<not> is_chain_valid toy_digest (tamper_previous_hash 1 ''tampered'' demo2)"
    using th reachable_demo2 l p by simp
  have b: "\<not> is_chain_valid toy_digest (tamper_transactions 1 [] demo2)"
    using th reachable_demo2 l h by simp
  have l0: "length (chain demo0) = 1" by (simp add: demo0_chain)
  have c: "is_chain_valid toy_digest (tamper_transactions 0 [tx_AB] demo0)"
    using is_chain_valid_detection [of toy_digest t0 demo0 _ _ _ _ _ _ "[tx_AB]"] l0 by simp
  have i: "is_chain_valid toy_digest (init toy_digest t0)" using th by simp
  from i reachable_demo2 l p a h b l0 c show ?thesis by simp
qed

text \<open>
  C2 as stated fails on the genesis block: on a new ledger, after the genesis block's
  \<open>previous_hash\<close> is changed from \<open>0\<close> to another string, or its empty transaction list
  gets a transaction, \<open>is_chain_valid\<close> still returns true, since the loop starts at
  index 1.
\<close>

theorem genesis_tampering_undetected:
  "previous_hash (chain demo0 ! 0) = ''0'' \<and>
   previous_hash (chain (tamper_previous_hash 0 ''tampered'' demo0) ! 0) = ''tampered'' \<and>
   is_chain_valid toy_digest (tamper_previous_hash 0 ''tampered'' demo0) \<and>
   block_transactions demo0 (chain demo0 ! 0) = [] \<and>
   block_transactions (tamper_transactions 0 [tx_AB] demo0)
     (chain (tamper_transactions 0 [tx_AB] demo0) ! 0) = [tx_AB] \<and>
   is_chain_valid toy_digest (tamper_transactions 0 [tx_AB] demo0)"
proof -
  have 1: "previous_hash (chain demo0 ! 0) = ''0''"
    by (simp add: demo0_chain create_genesis_block_def)
  have 2: "previous_hash (chain (tamper_previous_hash 0 ''tampered'' demo0) ! 0) = ''tampered''"
    by (simp add: tamper_previous_hash_def demo0_chain)
  have 3: "is_chain_valid toy_digest (tamper_previous_hash 0 ''tampered'' demo0)"
    by (simp add: is_chain_valid_def tamper_previous_hash_def demo0_chain)
  have 4: "block_transactions demo0 (chain demo0 ! 0) = []"
    by (simp add: block_transactions_def demo0_def init_def Let_def)
  have 5: "block_transactions (tamper_transactions 0 [tx_AB] demo0)
      (chain (tamper_transactions 0 [tx_AB] demo0) ! 0) = [tx_AB]"
    by (simp add: block_transactions_def tamper_transactions_def)
  have 6: "is_chain_valid toy_digest (tamper_transactions 0 [tx_AB] demo0)"
    by (simp add: is_chain_valid_def tamper_transactions_def demo0_chain)
  from 1 2 3 4 5 6 show ?thesis by simp
qed

end
